theory Spec2Isabelle
  imports Complex_Main "HOL-Library.Multiset"
begin

section \<open>The event player of FleetDashboard.jsx\<close>

text \<open>
  The embedding follows \<^verbatim>\<open>src/FleetDashboard.jsx\<close>: the class \<^verbatim>\<open>EventPlayer\<close> and the
  dashboard function \<^verbatim>\<open>stepForward\<close> that drives it.

  \<^item> A JavaScript \<^verbatim>\<open>Date\<close> is its time value: whole milliseconds since the epoch, or
    \<open>None\<close> for an Invalid Date (time value NaN). A comparison with NaN is false.
  \<^item> Numbers are rationals, so the arithmetic of \<^verbatim>\<open>getSimTime\<close> is exact; the
    rounding of IEEE doubles is not modelled. Speeds are finite numbers.
  \<^item> The wall clock \<^verbatim>\<open>Date.now()\<close> is an argument \<open>wall\<close> of every operation that reads
    it; an operation reads it once.
  \<^item> The callbacks \<^verbatim>\<open>onTick\<close> and \<^verbatim>\<open>onEvent\<close> are the signals an operation returns,
    in the order it makes the calls.
  \<^item> The interval handle \<^verbatim>\<open>timer\<close> is a flag: \<open>True\<close> while a handle is held.
\<close>

subsection \<open>Dates and numbers\<close>

type_synonym date = "int option"

text \<open>\<^verbatim>\<open>ToIntegerOrInfinity\<close>: truncation towards zero.\<close>

definition ToInteger :: "rat \<Rightarrow> int" where
  "ToInteger x = (if 0 \<le> x then \<lfloor>x\<rfloor> else \<lceil>x\<rceil>)"

text \<open>\<^verbatim>\<open>TimeClip\<close> of ECMAScript, applied by \<^verbatim>\<open>new Date(number)\<close>: beyond 8.64e15 ms
  the date is invalid, otherwise the number loses its fraction.\<close>

definition TimeClip :: "rat \<Rightarrow> date" where
  "TimeClip x = (if 8640000000000000 < \<bar>x\<bar> then None else Some (ToInteger x))"

text \<open>\<^verbatim>\<open>new Date(n)\<close> for a number \<open>n\<close> (\<open>None\<close> is NaN).\<close>

definition newDate :: "rat option \<Rightarrow> date" where
  "newDate n = (case n of None \<Rightarrow> None | Some x \<Rightarrow> TimeClip x)"

definition num :: "int option \<Rightarrow> rat option" where
  "num n = map_option of_int n"

text \<open>The relational operators on two dates: false as soon as one side is NaN.\<close>

definition date_le :: "date \<Rightarrow> date \<Rightarrow> bool" where
  "date_le a b = (case (a, b) of (Some x, Some y) \<Rightarrow> x \<le> y | _ \<Rightarrow> False)"

definition date_ge :: "date \<Rightarrow> date \<Rightarrow> bool" where
  "date_ge a b = (case (a, b) of (Some x, Some y) \<Rightarrow> y \<le> x | _ \<Rightarrow> False)"

definition date_gt :: "date \<Rightarrow> date \<Rightarrow> bool" where
  "date_gt a b = (case (a, b) of (Some x, Some y) \<Rightarrow> y < x | _ \<Rightarrow> False)"

subsection \<open>Events and the player object\<close>

text \<open>An event record: \<open>timestamp\<close> is the time value of \<^verbatim>\<open>new Date(e.timestamp)\<close>
  (\<open>None\<close> when the field does not parse), \<open>payload\<close> stands for every other field.\<close>

record 'a event =
  timestamp :: date
  payload :: 'a

record 'a EventPlayer =
  events :: "'a event list"
  speed :: rat
  timer :: bool
  baseReal :: "int option"
  baseSim :: "int option"
  pointer :: nat
  simNow :: date

datatype 'a signal = OnTick date | OnEvent "'a event"

subsection \<open>The constructor\<close>

text \<open>The comparator \<^verbatim>\<open>(a, b) => new Date(a.timestamp) - new Date(b.timestamp)\<close>; the
  difference is NaN when a side is.\<close>

definition comparefn :: "'a event \<Rightarrow> 'a event \<Rightarrow> rat option" where
  "comparefn a b =
     (case (timestamp a, timestamp b) of
        (Some x, Some y) \<Rightarrow> Some (of_int (x - y))
      | _ \<Rightarrow> None)"

text \<open>\<^verbatim>\<open>SortCompare\<close> of \<^verbatim>\<open>Array.prototype.sort\<close> reads a NaN from the comparator as +0.\<close>

definition SortCompare :: "'a event \<Rightarrow> 'a event \<Rightarrow> rat" where
  "SortCompare a b = (case comparefn a b of None \<Rightarrow> 0 | Some v \<Rightarrow> v)"

text \<open>
  \<^verbatim>\<open>Array.prototype.sort\<close> is stable. It is modelled by a stable insertion sort on
  \<open>SortCompare\<close>. When every timestamp parses the comparator is consistent and the
  result is the one the language fixes. When a timestamp is NaN the comparator is
  inconsistent and the language leaves the order to the implementation; the insertion
  sort is then one permitted order. On a list of two records every stable sort agrees.
\<close>

fun insert_sorted :: "'a event \<Rightarrow> 'a event list \<Rightarrow> 'a event list" where
  "insert_sorted x [] = [x]"
| "insert_sorted x (y # ys) =
     (if SortCompare x y \<le> 0 then x # y # ys else y # insert_sorted x ys)"

definition array_sort :: "'a event list \<Rightarrow> 'a event list" where
  "array_sort xs = foldr insert_sorted xs []"

text \<open>
  \<^verbatim>\<open>new EventPlayer(events, {startTime, speed})\<close>. \<open>startTime\<close> is \<open>None\<close> when the
  option is absent (falsy), otherwise the time value it parses to; the default
  \<^verbatim>\<open>speed = 1\<close> is the caller's. The list argument is the content of the copy made by
  \<^verbatim>\<open>events.slice()\<close>.
\<close>

definition new_EventPlayer :: "int \<Rightarrow> 'a event list \<Rightarrow> date option \<Rightarrow> rat \<Rightarrow> 'a EventPlayer" where
  "new_EventPlayer wall evs startTime sp =
     (let sorted_evs = array_sort evs;
          bs = (case startTime of
                  Some d \<Rightarrow> d
                | None \<Rightarrow> (if sorted_evs \<noteq> [] then timestamp (sorted_evs ! 0) else Some wall))
      in \<lparr> events = sorted_evs, speed = sp, timer = False, baseReal = None,
           baseSim = bs, pointer = 0, simNow = newDate (num bs) \<rparr>)"

subsection \<open>The clock\<close>

text \<open>\<^verbatim>\<open>!this.baseReal\<close> holds for \<^verbatim>\<open>null\<close> and for the number 0.\<close>

definition getSimTime :: "int \<Rightarrow> 'a EventPlayer \<Rightarrow> date" where
  "getSimTime wall p =
     (case baseReal p of
        None \<Rightarrow> newDate (num (baseSim p))
      | Some r \<Rightarrow>
          if r = 0 then newDate (num (baseSim p))
          else (let elapsedReal = wall - r;
                    elapsedSim = of_int elapsedReal * speed p
                in newDate (case baseSim p of
                              None \<Rightarrow> None
                            | Some b \<Rightarrow> Some (of_int b + elapsedSim))))"

definition pause :: "'a EventPlayer \<Rightarrow> 'a EventPlayer" where
  "pause p = (if timer p then p\<lparr>timer := False\<rparr> else p)"

definition setSpeed :: "int \<Rightarrow> rat \<Rightarrow> 'a EventPlayer \<Rightarrow> 'a EventPlayer" where
  "setSpeed wall s p =
     (let sim = getSimTime wall p
      in p\<lparr>simNow := sim, baseSim := sim, baseReal := Some wall, speed := s\<rparr>)"

text \<open>\<^verbatim>\<open>play(speed = this.speed)\<close>: \<open>None\<close> is the call without an argument.\<close>

definition play :: "int \<Rightarrow> rat option \<Rightarrow> 'a EventPlayer \<Rightarrow> 'a EventPlayer" where
  "play wall sp p =
     (let p1 = setSpeed wall (case sp of None \<Rightarrow> speed p | Some s \<Rightarrow> s) p
      in if timer p1 then p1
         else p1\<lparr>baseReal := Some wall, timer := True\<rparr>)"

text \<open>\<^verbatim>\<open>Array.prototype.findIndex\<close>; \<open>None\<close> is the result \<open>-1\<close>.\<close>

fun findIndex :: "('b \<Rightarrow> bool) \<Rightarrow> 'b list \<Rightarrow> nat option" where
  "findIndex P [] = None"
| "findIndex P (x # xs) = (if P x then Some 0 else map_option Suc (findIndex P xs))"

text \<open>\<^verbatim>\<open>seek(iso)\<close>: \<open>iso_time\<close> is the time value of \<^verbatim>\<open>new Date(iso)\<close>.\<close>

definition seek :: "int \<Rightarrow> date \<Rightarrow> 'a EventPlayer \<Rightarrow> 'a EventPlayer" where
  "seek wall iso_time p =
     (let t = iso_time;
          p1 = p\<lparr>baseSim := t, baseReal := Some wall, simNow := newDate (num t)\<rparr>
      in p1\<lparr>pointer :=
              (case findIndex (\<lambda>e. date_ge (timestamp e) (simNow p1)) (events p1) of
                 None \<Rightarrow> length (events p1)
               | Some i \<Rightarrow> i)\<rparr>)"

subsection \<open>The periodic tick\<close>

text \<open>The \<^verbatim>\<open>while\<close> loop of \<^verbatim>\<open>_tick\<close>: one \<^verbatim>\<open>onEvent\<close> call and one step of the
  pointer per round.\<close>

function deliver :: "date \<Rightarrow> 'a EventPlayer \<Rightarrow> 'a EventPlayer \<times> 'a signal list" where
  "deliver now p =
     (if pointer p < length (events p) \<and> date_le (timestamp (events p ! pointer p)) now
      then (let (p', out) = deliver now (p\<lparr>pointer := pointer p + 1\<rparr>)
            in (p', OnEvent (events p ! pointer p) # out))
      else (p, []))"
  by pat_completeness auto
termination
  by (relation "measure (\<lambda>(now, p). length (events p) - pointer p)") auto

declare deliver.simps [simp del]

definition tick :: "int \<Rightarrow> 'a EventPlayer \<Rightarrow> 'a EventPlayer \<times> 'a signal list" where
  "tick wall p =
     (let now = getSimTime wall p;
          p1 = p\<lparr>simNow := now\<rparr>;
          (p2, out) = deliver now p1;
          p3 = (if length (events p2) \<le> pointer p2 then pause p2 else p2)
      in (p3, OnTick now # out))"

text \<open>The interval set by \<^verbatim>\<open>play\<close> calls \<^verbatim>\<open>_tick\<close> only while the handle is held:
  after \<^verbatim>\<open>clearInterval\<close> the callback runs no more.\<close>

definition fire :: "int \<Rightarrow> 'a EventPlayer \<Rightarrow> 'a EventPlayer \<times> 'a signal list" where
  "fire wall p = (if timer p then tick wall p else (p, []))"

text \<open>The interval coming due at each wall-clock instant of a list, in turn.\<close>

fun ticks :: "int list \<Rightarrow> 'a EventPlayer \<Rightarrow> 'a EventPlayer \<times> 'a signal list" where
  "ticks [] p = (p, [])"
| "ticks (w # ws) p =
     (let (p1, out1) = fire w p;
          (p2, out2) = ticks ws p1
      in (p2, out1 @ out2))"

text \<open>The arguments of the \<^verbatim>\<open>onEvent\<close> calls among the signals, in call order.\<close>

fun delivered :: "'a signal list \<Rightarrow> 'a event list" where
  "delivered [] = []"
| "delivered (OnEvent e # out) = e # delivered out"
| "delivered (OnTick t # out) = delivered out"

subsection \<open>The dashboard around the player\<close>

text \<open>The state of \<^verbatim>\<open>FleetDashboard\<close> that the player's callbacks and \<^verbatim>\<open>stepForward\<close>
  write: \<open>simTime\<close> (\<open>None\<close> is \<^verbatim>\<open>null\<close>) and the \<open>activity\<close> feed, newest first.\<close>

record 'a dashboard =
  player :: "'a EventPlayer"
  simTime :: "date option"
  activity :: "'a event list"

text \<open>The callbacks given to the player: \<^verbatim>\<open>(now) => setSimTime(now)\<close> and
  \<^verbatim>\<open>(ev) => setActivity((prev) => [ev, ...prev].slice(0, 300))\<close>.\<close>

definition onTick :: "date \<Rightarrow> 'a dashboard \<Rightarrow> 'a dashboard" where
  "onTick now d = d\<lparr>simTime := Some now\<rparr>"

definition onEvent :: "'a event \<Rightarrow> 'a dashboard \<Rightarrow> 'a dashboard" where
  "onEvent ev d = d\<lparr>activity := take 300 (ev # activity d)\<rparr>"

fun dispatch :: "'a signal list \<Rightarrow> 'a dashboard \<Rightarrow> 'a dashboard" where
  "dispatch [] d = d"
| "dispatch (OnTick now # out) d = dispatch out (onTick now d)"
| "dispatch (OnEvent ev # out) d = dispatch out (onEvent ev d)"

definition stepForward :: "int \<Rightarrow> 'a dashboard \<Rightarrow> 'a dashboard" where
  "stepForward wall d =
     (let p1 = pause (player d);
          now = getSimTime wall p1
      in case findIndex (\<lambda>e. date_gt (timestamp e) now) (events p1) of
           None \<Rightarrow> d\<lparr>player := p1\<rparr>
         | Some nextIndex \<Rightarrow>
             (let p2 = seek wall (timestamp (events p1 ! nextIndex)) p1
              in d\<lparr>player := p2,
                    simTime := Some (getSimTime wall p2),
                    activity := take 300 (events p2 ! nextIndex # activity d)\<rparr>))"

text \<open>The control surface of the player as the dashboard uses it, one operation at a
  wall-clock instant.\<close>

datatype op = Play "rat option" | Pause | SetSpeed rat | Seek date | Tick | Step

fun exec :: "int \<Rightarrow> op \<Rightarrow> 'a dashboard \<Rightarrow> 'a dashboard" where
  "exec wall (Play sp) d = d\<lparr>player := play wall sp (player d)\<rparr>"
| "exec wall Pause d = d\<lparr>player := pause (player d)\<rparr>"
| "exec wall (SetSpeed s) d = d\<lparr>player := setSpeed wall s (player d)\<rparr>"
| "exec wall (Seek iso_time) d = d\<lparr>player := seek wall iso_time (player d)\<rparr>"
| "exec wall Tick d =
     (let (p, out) = fire wall (player d) in dispatch out (d\<lparr>player := p\<rparr>))"
| "exec wall Step d = stepForward wall d"

fun run :: "(int \<times> op) list \<Rightarrow> 'a dashboard \<Rightarrow> 'a dashboard" where
  "run [] d = d"
| "run ((wall, a) # as) d = run as (exec wall a d)"

subsection \<open>Arrays in the store\<close>

text \<open>
  The constructor receives a reference to the caller's array. A store holds the arrays
  by address (the index in the list); \<^verbatim>\<open>slice()\<close> allocates a new array with the same
  elements and \<^verbatim>\<open>sort\<close> rewrites the array it is called on, in place. The array of
  \<^verbatim>\<open>this.events\<close> is reachable through the player only, so the player record holds its
  content. The methods and \<^verbatim>\<open>stepForward\<close> take no store: none of them assigns to an
  element of an array or to a field of an event.
\<close>

type_synonym 'a store = "'a event list list"

definition array_slice :: "'a store \<Rightarrow> nat \<Rightarrow> 'a store \<times> nat" where
  "array_slice st a = (st @ [st ! a], length st)"

definition sort_in_place :: "'a store \<Rightarrow> nat \<Rightarrow> 'a store \<times> nat" where
  "sort_in_place st a = (st[a := array_sort (st ! a)], a)"

text \<open>\<^verbatim>\<open>this.events = events.slice().sort(...)\<close>: the new store and the address kept in
  \<^verbatim>\<open>this.events\<close>.\<close>

definition constructor_events :: "'a store \<Rightarrow> nat \<Rightarrow> 'a store \<times> nat" where
  "constructor_events st a =
     (let (st1, c) = array_slice st a in sort_in_place st1 c)"

subsection \<open>The order the specification asks for\<close>


subsection \<open>Example data\<close>

text \<open>The log of the specification's scenarios, given out of order: "start" at 0 ms,
  "ping" at 4000 ms, "complete" at 10000 ms.\<close>

definition trip_log :: "string event list" where
  "trip_log =
     [\<lparr>timestamp = Some 4000, payload = ''ping''\<rparr>,
      \<lparr>timestamp = Some 10000, payload = ''complete''\<rparr>,
      \<lparr>timestamp = Some 0, payload = ''start''\<rparr>]"

text \<open>A player on that log, built at wall-clock instant 1000 with the default options.\<close>

definition trip_player :: "string EventPlayer" where
  "trip_player = new_EventPlayer 1000 trip_log None 1"

text \<open>A dashboard around that player, before any callback or step.\<close>

definition trip_dashboard :: "string dashboard" where
  "trip_dashboard = \<lparr> player = trip_player, simTime = None, activity = [] \<rparr>"

text \<open>A log whose first record has a timestamp that does not parse.\<close>

definition broken_log :: "string event list" where
  "broken_log =
     [\<lparr>timestamp = None, payload = ''garbled''\<rparr>,
      \<lparr>timestamp = Some 5, payload = ''good''\<rparr>]"

text \<open>A player on the broken log, with \<^verbatim>\<open>startTime\<close> at 0 ms.\<close>

definition broken_player :: "string EventPlayer" where
  "broken_player = new_EventPlayer 1000 broken_log (Some (Some 0)) 1"

section \<open>Properties\<close>

subsection \<open>Dates\<close>

lemma ToInteger_of_int: "ToInteger (of_int y) = y"
  by (simp add: ToInteger_def)

lemma ToInteger_abs_le: "\<bar>of_int (ToInteger x) :: rat\<bar> \<le> \<bar>x\<bar>"
proof (cases "0 \<le> x")
  case True
  then have "0 \<le> \<lfloor>x\<rfloor>" by simp
  then have "\<bar>of_int \<lfloor>x\<rfloor> :: rat\<bar> = of_int \<lfloor>x\<rfloor>" by simp
  also have "\<dots> \<le> x" by (rule of_int_floor_le)
  finally show ?thesis using True by (simp add: ToInteger_def)
next
  case False
  then have neg: "x < 0" by simp
  then have "\<lceil>x\<rceil> \<le> 0" by (simp add: ceiling_le_zero)
  then have "\<bar>of_int \<lceil>x\<rceil> :: rat\<bar> = - of_int \<lceil>x\<rceil>" by simp
  also have "\<dots> \<le> - x" using le_of_int_ceiling [of x] by simp
  finally show ?thesis using neg by (simp add: ToInteger_def)
qed

lemma TimeClip_idem: "TimeClip x = Some y \<Longrightarrow> TimeClip (of_int y) = Some y"
proof -
  assume h: "TimeClip x = Some y"
  then have b: "\<bar>x\<bar> \<le> 8640000000000000" and y: "y = ToInteger x"
    by (auto simp: TimeClip_def split: if_splits)
  have "\<bar>of_int y :: rat\<bar> \<le> \<bar>x\<bar>" using ToInteger_abs_le [of x] y by simp
  with b have "\<bar>of_int y :: rat\<bar> \<le> 8640000000000000" by linarith
  then show ?thesis by (simp add: TimeClip_def ToInteger_of_int)
qed

lemma TimeClip_in_range: "\<bar>t\<bar> \<le> 8640000000000000 \<Longrightarrow> TimeClip (of_int t) = Some t"
proof -
  assume "\<bar>t\<bar> \<le> 8640000000000000"
  then have "\<bar>of_int t :: rat\<bar> \<le> of_int 8640000000000000"
    unfolding of_int_abs [symmetric] of_int_le_iff .
  then show ?thesis by (simp add: TimeClip_def ToInteger_of_int)
qed

lemma newDate_num_idem: "newDate (num (newDate n)) = newDate n"
  by (cases n; cases "newDate n") (auto simp: newDate_def num_def dest: TimeClip_idem)

lemma getSimTime_range: "newDate (num (getSimTime wall p)) = getSimTime wall p"
  by (auto simp: getSimTime_def Let_def newDate_num_idem split: option.splits)

lemma getSimTime_idem_anchor:
  "baseSim q = getSimTime wall p \<Longrightarrow> baseReal q = Some wall \<Longrightarrow> getSimTime wall q = getSimTime wall p"
proof -
  assume a: "baseSim q = getSimTime wall p" and r: "baseReal q = Some wall"
  have "getSimTime wall q = newDate (num (baseSim q))"
    using r by (cases "baseSim q") (simp_all add: getSimTime_def num_def)
  then show ?thesis using a getSimTime_range [of wall p] by simp
qed

lemma getSimTime_pause: "getSimTime wall (pause p) = getSimTime wall p"
  by (simp add: getSimTime_def pause_def split: option.splits)

subsection \<open>The clock: \<^verbatim>\<open>getSimTime\<close>, \<^verbatim>\<open>pause\<close>, \<^verbatim>\<open>setSpeed\<close>, \<^verbatim>\<open>play\<close>\<close>




text \<open>
  C6. \<^verbatim>\<open>setSpeed\<close> is time-continuous: for every player state and every factor, the
  time read at a wall-clock instant is the same before and after a \<^verbatim>\<open>setSpeed\<close> call made
  at that instant.
\<close>

theorem setSpeed_time_continuous:
  "getSimTime wall (setSpeed wall s p) = getSimTime wall p"
  by (rule getSimTime_idem_anchor) (simp_all add: setSpeed_def Let_def)

lemma play_same_instant:
  "baseSim (play wall sp p) = getSimTime wall p \<and> baseReal (play wall sp p) = Some wall
   \<and> simNow (play wall sp p) = getSimTime wall p \<and> timer (play wall sp p)
   \<and> speed (play wall sp p) = (case sp of None \<Rightarrow> speed p | Some s \<Rightarrow> s)
   \<and> events (play wall sp p) = events p \<and> pointer (play wall sp p) = pointer p"
  by (simp add: play_def setSpeed_def Let_def)

text \<open>
  C5 (as amended). A second \<^verbatim>\<open>play\<close> at the same wall-clock instant as the first leaves
  the state of the single call. On a player that is already running, \<^verbatim>\<open>play\<close> is the
  \<^verbatim>\<open>setSpeed\<close> call it starts with: the timer stays and the time read at that instant is
  unchanged, but the anchor moves, \<open>baseReal\<close> to the instant of the call and \<open>baseSim\<close>
  to the time read then.
\<close>

theorem play_second_call:
  "play wall sp (play wall sp p) = play wall sp p
   \<and> (timer p \<longrightarrow>
        play wall sp p = setSpeed wall (case sp of None \<Rightarrow> speed p | Some s \<Rightarrow> s) p
        \<and> timer (play wall sp p)
        \<and> getSimTime wall (play wall sp p) = getSimTime wall p
        \<and> baseReal (play wall sp p) = Some wall
        \<and> baseSim (play wall sp p) = getSimTime wall p)"
proof -
  have g: "getSimTime wall (play wall sp p) = getSimTime wall p"
    by (rule getSimTime_idem_anchor) (simp_all add: play_same_instant)
  have "play wall sp (play wall sp p) = play wall sp p"
    unfolding play_def [of wall sp "play wall sp p"] setSpeed_def
    using g by (cases sp) (simp_all add: play_same_instant Let_def)
  moreover have "timer p \<longrightarrow> play wall sp p = setSpeed wall (case sp of None \<Rightarrow> speed p | Some s \<Rightarrow> s) p"
    by (simp add: play_def setSpeed_def Let_def)
  moreover note g play_same_instant [of wall sp p]
  ultimately show ?thesis by blast
qed

theorem play_second_call_witness:
  "timer (play 1000 None trip_player)
   \<and> play 2000 None (play 2000 None (play 1000 None trip_player)) = play 2000 None (play 1000 None trip_player)
   \<and> getSimTime 2000 (play 2000 None (play 1000 None trip_player)) = Some 1000"
proof -
  have t: "timer (play 1000 None trip_player)" by code_simp
  have g: "getSimTime 2000 (play 1000 None trip_player) = Some 1000" by code_simp
  from play_second_call [of 2000 None "play 1000 None trip_player"] t g show ?thesis by metis
qed

text \<open>C5 as stated fails: a second \<^verbatim>\<open>play\<close> one second after the first moves the anchor
  from (1000, 0) to (2000, 1000).\<close>

theorem play_twice_counterexample:
  "timer (play 1000 None trip_player)
   \<and> baseReal (play 1000 None trip_player) = Some 1000
   \<and> baseSim (play 1000 None trip_player) = Some 0
   \<and> baseReal (play 2000 None (play 1000 None trip_player)) = Some 2000
   \<and> baseSim (play 2000 None (play 1000 None trip_player)) = Some 1000"
  by code_simp

subsection \<open>The loop of \<^verbatim>\<open>_tick\<close>\<close>

lemma deliver_done:
  "\<not> (pointer p < length (events p) \<and> date_le (timestamp (events p ! pointer p)) now) \<Longrightarrow>
   deliver now p = (p, [])"
  by (subst deliver.simps) (simp only: if_False)

lemma deliver_round:
  "pointer p < length (events p) \<and> date_le (timestamp (events p ! pointer p)) now \<Longrightarrow>
   deliver now p =
     (fst (deliver now (p\<lparr>pointer := pointer p + 1\<rparr>)),
      OnEvent (events p ! pointer p) # snd (deliver now (p\<lparr>pointer := pointer p + 1\<rparr>)))"
  by (subst deliver.simps) (simp only: simp_thms if_True Let_def split_beta)

lemma deliver_frame: "fst (deliver now p) = p\<lparr>pointer := pointer (fst (deliver now p))\<rparr>"
proof (induction now p rule: deliver.induct)
  case (1 now p)
  show ?case
  proof (cases "pointer p < length (events p) \<and> date_le (timestamp (events p ! pointer p)) now")
    case True
    let ?q = "p\<lparr>pointer := pointer p + 1\<rparr>"
    from True have eq: "fst (deliver now p) = fst (deliver now ?q)"
      by (simp add: deliver_round)
    from "1.IH" [OF True] have "fst (deliver now ?q) = ?q\<lparr>pointer := pointer (fst (deliver now ?q))\<rparr>" .
    then show ?thesis unfolding eq by simp
  next
    case False
    then have "deliver now p = (p, [])" by (rule deliver_done)
    then show ?thesis by simp
  qed
qed

lemma deliver_range:
  "pointer p \<le> pointer (fst (deliver now p))
   \<and> (pointer p \<le> length (events p) \<longrightarrow> pointer (fst (deliver now p)) \<le> length (events p))"
proof (induction now p rule: deliver.induct)
  case (1 now p)
  show ?case
  proof (cases "pointer p < length (events p) \<and> date_le (timestamp (events p ! pointer p)) now")
    case True
    let ?q = "p\<lparr>pointer := pointer p + 1\<rparr>"
    from True have eq: "fst (deliver now p) = fst (deliver now ?q)"
      by (simp add: deliver_round)
    from "1.IH" [OF True] True show ?thesis unfolding eq by simp
  next
    case False
    then have "deliver now p = (p, [])" by (rule deliver_done)
    then show ?thesis by simp
  qed
qed

lemma deliver_signals:
  "snd (deliver now p) = map (\<lambda>i. OnEvent (events p ! i)) [pointer p ..< pointer (fst (deliver now p))]"
proof (induction now p rule: deliver.induct)
  case (1 now p)
  show ?case
  proof (cases "pointer p < length (events p) \<and> date_le (timestamp (events p ! pointer p)) now")
    case True
    let ?q = "p\<lparr>pointer := pointer p + 1\<rparr>"
    from True have eq: "fst (deliver now p) = fst (deliver now ?q)"
      and eq2: "snd (deliver now p) = OnEvent (events p ! pointer p) # snd (deliver now ?q)"
      by (simp_all add: deliver_round)
    have le: "Suc (pointer p) \<le> pointer (fst (deliver now ?q))"
      using deliver_range [of ?q now] by simp
    from "1.IH" [OF True] have "snd (deliver now ?q) =
        map (\<lambda>i. OnEvent (events p ! i)) [Suc (pointer p) ..< pointer (fst (deliver now ?q))]"
      by simp
    with le show ?thesis unfolding eq eq2 by (simp add: upt_conv_Cons)
  next
    case False
    then have "deliver now p = (p, [])" by (rule deliver_done)
    then show ?thesis by simp
  qed
qed

text \<open>Where the loop stops: at the end of the list or at a record that is not due.\<close>

lemma deliver_stop:
  "pointer (fst (deliver now p)) < length (events p) \<Longrightarrow>
   \<not> date_le (timestamp (events p ! pointer (fst (deliver now p)))) now"
proof (induction now p rule: deliver.induct)
  case (1 now p)
  show ?case
  proof (cases "pointer p < length (events p) \<and> date_le (timestamp (events p ! pointer p)) now")
    case True
    let ?q = "p\<lparr>pointer := pointer p + 1\<rparr>"
    from True have eq: "fst (deliver now p) = fst (deliver now ?q)"
      by (simp add: deliver_round)
    from "1.IH" [OF True] "1.prems" show ?thesis unfolding eq by simp
  next
    case False
    then have "deliver now p = (p, [])" by (rule deliver_done)
    with False "1.prems" show ?thesis by simp
  qed
qed

text \<open>Every record the loop passes was due.\<close>

lemma deliver_due:
  "pointer p \<le> i \<Longrightarrow> i < pointer (fst (deliver now p)) \<Longrightarrow>
   date_le (timestamp (events p ! i)) now"
proof (induction now p rule: deliver.induct)
  case (1 now p)
  show ?case
  proof (cases "pointer p < length (events p) \<and> date_le (timestamp (events p ! pointer p)) now")
    case True
    let ?q = "p\<lparr>pointer := pointer p + 1\<rparr>"
    from True have eq: "fst (deliver now p) = fst (deliver now ?q)"
      by (simp add: deliver_round)
    show ?thesis
    proof (cases "i = pointer p")
      case True
      with \<open>pointer p < length (events p) \<and> date_le (timestamp (events p ! pointer p)) now\<close>
      show ?thesis by simp
    next
      case False
      with "1.prems" have "pointer ?q \<le> i" by simp
      moreover from "1.prems" have "i < pointer (fst (deliver now ?q))" unfolding eq by simp
      ultimately show ?thesis using "1.IH" [OF True] by simp
    qed
  next
    case False
    then have "deliver now p = (p, [])" by (rule deliver_done)
    with "1.prems" show ?thesis by simp
  qed
qed

subsection \<open>One tick and a run of ticks\<close>

lemma tick_unfold:
  "tick wall p =
     (let now = getSimTime wall p;
          k = pointer (fst (deliver now (p\<lparr>simNow := now\<rparr>)));
          q = p\<lparr>simNow := now, pointer := k\<rparr>
      in (if length (events p) \<le> k then pause q else q,
          OnTick now # map (\<lambda>i. OnEvent (events p ! i)) [pointer p ..< k]))"
proof -
  define now where "now = getSimTime wall p"
  define d where "d = fst (deliver now (p\<lparr>simNow := now\<rparr>))"
  define k where "k = pointer d"
  have f: "d = p\<lparr>simNow := now, pointer := k\<rparr>"
    unfolding d_def k_def using deliver_frame [of now "p\<lparr>simNow := now\<rparr>"] by simp
  have s: "snd (deliver now (p\<lparr>simNow := now\<rparr>)) =
      map (\<lambda>i. OnEvent (events p ! i)) [pointer p ..< k]"
    unfolding d_def k_def using deliver_signals [of now "p\<lparr>simNow := now\<rparr>"] by simp
  have "tick wall p =
      (if length (events d) \<le> pointer d then pause d else d,
       OnTick now # snd (deliver now (p\<lparr>simNow := now\<rparr>)))"
    by (simp add: tick_def Let_def split_beta d_def now_def)
  also have "\<dots> = (if length (events p) \<le> k then pause (p\<lparr>simNow := now, pointer := k\<rparr>)
                       else p\<lparr>simNow := now, pointer := k\<rparr>,
       OnTick now # map (\<lambda>i. OnEvent (events p ! i)) [pointer p ..< k])"
    unfolding s by (simp add: f)
  finally show ?thesis
    by (simp add: Let_def now_def k_def d_def)
qed

lemma delivered_append: "delivered (xs @ ys) = delivered xs @ delivered ys"
  by (induction xs rule: delivered.induct) simp_all

lemma delivered_OnEvent: "delivered (map (\<lambda>i. OnEvent (f i)) is) = map f is"
  by (induction "is") simp_all

lemma fire_fields:
  "events (fst (fire wall p)) = events p \<and> speed (fst (fire wall p)) = speed p
   \<and> baseReal (fst (fire wall p)) = baseReal p \<and> baseSim (fst (fire wall p)) = baseSim p"
  by (simp add: fire_def tick_unfold Let_def pause_def)

lemma fire_pointer:
  "pointer p \<le> pointer (fst (fire wall p))
   \<and> (pointer p \<le> length (events p) \<longrightarrow> pointer (fst (fire wall p)) \<le> length (events p))"
  using deliver_range [of "p\<lparr>simNow := getSimTime wall p\<rparr>" "getSimTime wall p"]
  by (simp add: fire_def tick_unfold Let_def pause_def)

lemma fire_delivered:
  "delivered (snd (fire wall p)) = map ((!) (events p)) [pointer p ..< pointer (fst (fire wall p))]"
  by (simp add: fire_def tick_unfold Let_def pause_def delivered_OnEvent)

lemma fire_timer:
  "timer (fst (fire wall p)) = (timer p \<and> pointer (fst (fire wall p)) < length (events p))"
  by (auto simp: fire_def tick_unfold Let_def pause_def)

lemma fire_idle: "\<not> timer p \<Longrightarrow> fire wall p = (p, [])"
  by (simp add: fire_def)

lemma ticks_idle: "\<not> timer p \<Longrightarrow> ticks ws p = (p, [])"
  by (induction ws) (simp_all add: fire_idle)

lemma ticks_Cons:
  "fst (ticks (w # ws) p) = fst (ticks ws (fst (fire w p)))
   \<and> snd (ticks (w # ws) p) = snd (fire w p) @ snd (ticks ws (fst (fire w p)))"
  by (simp add: split_beta Let_def)

lemma ticks_fields:
  "events (fst (ticks ws p)) = events p \<and> speed (fst (ticks ws p)) = speed p
   \<and> baseReal (fst (ticks ws p)) = baseReal p \<and> baseSim (fst (ticks ws p)) = baseSim p"
proof (induction ws arbitrary: p)
  case Nil
  show ?case by simp
next
  case (Cons w ws)
  from Cons [of "fst (fire w p)"] fire_fields [of w p] show ?case
    by (simp only: ticks_Cons)
qed

lemma ticks_pointer:
  "pointer p \<le> pointer (fst (ticks ws p))
   \<and> (pointer p \<le> length (events p) \<longrightarrow> pointer (fst (ticks ws p)) \<le> length (events p))"
proof (induction ws arbitrary: p)
  case Nil
  show ?case by simp
next
  case (Cons w ws)
  from Cons [of "fst (fire w p)"] fire_pointer [of p w] fire_fields [of w p] show ?case
    by (simp only: ticks_Cons) auto
qed

lemma ticks_delivered:
  "delivered (snd (ticks ws p)) = map ((!) (events p)) [pointer p ..< pointer (fst (ticks ws p))]"
proof (induction ws arbitrary: p)
  case Nil
  show ?case by simp
next
  case (Cons w ws)
  let ?p1 = "fst (fire w p)"
  have a: "pointer p \<le> pointer ?p1" using fire_pointer [of p w] by simp
  have b: "pointer ?p1 \<le> pointer (fst (ticks ws ?p1))" using ticks_pointer [of ?p1 ws] by simp
  have "[pointer p ..< pointer (fst (ticks ws ?p1))]
      = [pointer p ..< pointer ?p1] @ [pointer ?p1 ..< pointer (fst (ticks ws ?p1))]"
    using a b by (metis le_Suc_ex upt_add_eq_append)
  then show ?case
    using Cons [of ?p1] fire_delivered [of w p] fire_fields [of w p]
    by (simp only: ticks_Cons delivered_append map_append)
qed

lemma ticks_timer:
  "timer (fst (ticks ws p)) = (timer p \<and> (ws = [] \<or> pointer (fst (ticks ws p)) < length (events p)))"
proof (induction ws arbitrary: p)
  case Nil
  show ?case by simp
next
  case (Cons w ws)
  let ?p1 = "fst (fire w p)"
  have b: "pointer ?p1 \<le> pointer (fst (ticks ws ?p1))" using ticks_pointer [of ?p1 ws] by simp
  from Cons [of ?p1] fire_timer [of w p] fire_fields [of w p] b show ?case
    by (simp only: ticks_Cons) auto
qed

lemma fire_exhausted_pointer:
  "length (events p) \<le> pointer p \<Longrightarrow> pointer (fst (fire wall p)) = pointer p"
  by (simp add: fire_def tick_unfold Let_def pause_def deliver_done)

lemma ticks_exhausted_pointer:
  "length (events p) \<le> pointer p \<Longrightarrow> pointer (fst (ticks ws p)) = pointer p"
proof (induction ws arbitrary: p)
  case Nil
  show ?case by simp
next
  case (Cons w ws)
  from Cons.prems have "pointer (fst (fire w p)) = pointer p" by (rule fire_exhausted_pointer)
  with Cons.IH [of "fst (fire w p)"] Cons.prems fire_fields [of w p] show ?case
    by (simp only: ticks_Cons)
qed

lemma new_EventPlayer_fields:
  "events (new_EventPlayer wall evs startTime s) = array_sort evs
   \<and> pointer (new_EventPlayer wall evs startTime s) = 0
   \<and> \<not> timer (new_EventPlayer wall evs startTime s)
   \<and> baseReal (new_EventPlayer wall evs startTime s) = None
   \<and> speed (new_EventPlayer wall evs startTime s) = s"
  by (simp add: new_EventPlayer_def Let_def)

lemma pause_fields:
  "events (pause p) = events p \<and> pointer (pause p) = pointer p \<and> speed (pause p) = speed p
   \<and> baseReal (pause p) = baseReal p \<and> baseSim (pause p) = baseSim p \<and> simNow (pause p) = simNow p"
  by (simp add: pause_def)

lemma fire_stop:
  "timer p \<Longrightarrow> pointer (fst (fire wall p)) < length (events p) \<Longrightarrow>
   \<not> date_le (timestamp (events p ! pointer (fst (fire wall p)))) (getSimTime wall p)"
  using deliver_stop [of "getSimTime wall p" "p\<lparr>simNow := getSimTime wall p\<rparr>"]
  by (auto simp: fire_def tick_unfold Let_def pause_fields split: if_splits)

text \<open>A tick at which every record is due ends the play-through.\<close>

lemma late_tick_completes:
  assumes "timer p" and "\<forall>e \<in> set (events p). date_le (timestamp e) (getSimTime wall p)"
  shows "\<not> timer (fst (fire wall p))"
proof
  assume "timer (fst (fire wall p))"
  then have lt: "pointer (fst (fire wall p)) < length (events p)"
    using fire_timer [of wall p] by simp
  with assms(1) have "\<not> date_le (timestamp (events p ! pointer (fst (fire wall p)))) (getSimTime wall p)"
    by (rule fire_stop)
  moreover from lt assms(2)
  have "date_le (timestamp (events p ! pointer (fst (fire wall p)))) (getSimTime wall p)"
    by simp
  ultimately show False by simp
qed

lemma fire_due:
  "pointer p \<le> i \<Longrightarrow> i < pointer (fst (fire wall p)) \<Longrightarrow>
   date_le (timestamp (events p ! i)) (getSimTime wall p)"
  using deliver_due [of "p\<lparr>simNow := getSimTime wall p\<rparr>" i "getSimTime wall p"]
  by (auto simp: fire_def tick_unfold Let_def pause_fields split: if_splits)

lemma fire_blocked:
  assumes "pointer p \<le> i" and "timestamp (events p ! i) = None"
  shows "pointer (fst (fire wall p)) \<le> i"
proof (rule ccontr)
  assume "\<not> pointer (fst (fire wall p)) \<le> i"
  then have "i < pointer (fst (fire wall p))" by simp
  with assms(1) have "date_le (timestamp (events p ! i)) (getSimTime wall p)" by (rule fire_due)
  with assms(2) show False by (simp add: date_le_def)
qed

lemma ticks_blocked:
  "pointer p \<le> i \<Longrightarrow> timestamp (events p ! i) = None \<Longrightarrow> pointer (fst (ticks ws p)) \<le> i"
proof (induction ws arbitrary: p)
  case Nil
  then show ?case by simp
next
  case (Cons w ws)
  let ?p1 = "fst (fire w p)"
  from Cons.prems have "pointer ?p1 \<le> i" by (rule fire_blocked)
  moreover from Cons.prems have "timestamp (events ?p1 ! i) = None" by (simp add: fire_fields)
  ultimately have "pointer (fst (ticks ws ?p1)) \<le> i" by (rule Cons.IH)
  then show ?case by (simp only: ticks_Cons)
qed

lemma set_insert_sorted: "set (insert_sorted x ys) = insert x (set ys)"
  by (induction ys) auto

lemma set_array_sort: "set (array_sort evs) = set evs"
  by (induction evs) (simp_all add: array_sort_def set_insert_sorted)

subsection \<open>The constructor's sort\<close>




subsection \<open>Delivery\<close>

text \<open>
  C3. Over every run of ticks, from every player state, the events passed to
  \<^verbatim>\<open>onEvent\<close> are the records at the positions from the pointer before the run up to
  the pointer after it, each position once; when the records of the log are pairwise
  different, no event is passed twice.
\<close>

theorem ticks_deliver_each_position_once:
  "delivered (snd (ticks ws p)) = map ((!) (events p)) [pointer p ..< pointer (fst (ticks ws p))]
   \<and> (distinct (events p) \<longrightarrow> distinct (delivered (snd (ticks ws p))))"
proof -
  let ?k = "pointer (fst (ticks ws p))"
  have d: "delivered (snd (ticks ws p)) = map ((!) (events p)) [pointer p ..< ?k]"
    by (rule ticks_delivered)
  have "distinct (map ((!) (events p)) [pointer p ..< ?k])" if dist: "distinct (events p)"
  proof (cases "pointer p \<le> length (events p)")
    case True
    then have "?k \<le> length (events p)" using ticks_pointer [of p ws] by simp
    then have "inj_on ((!) (events p)) (set [pointer p ..< ?k])"
      using dist by (intro inj_on_nth) auto
    then show ?thesis by (simp add: distinct_map)
  next
    case False
    then have "?k = pointer p" using ticks_exhausted_pointer [of p ws] by simp
    then show ?thesis by simp
  qed
  with d show ?thesis by simp
qed

theorem ticks_deliver_each_position_once_witness:
  "distinct (events trip_player)
   \<and> delivered (snd (ticks [1250, 1500, 6000, 12000] (play 1000 None trip_player)))
       = [\<lparr>timestamp = Some 0, payload = ''start''\<rparr>,
          \<lparr>timestamp = Some 4000, payload = ''ping''\<rparr>,
          \<lparr>timestamp = Some 10000, payload = ''complete''\<rparr>]
   \<and> distinct (delivered (snd (ticks [1250, 1500, 6000, 12000] (play 1000 None trip_player))))"
proof -
  have e: "events (play 1000 None trip_player) = events trip_player" by (simp add: play_same_instant)
  have h: "distinct (events trip_player)" by code_simp
  have v: "delivered (snd (ticks [1250, 1500, 6000, 12000] (play 1000 None trip_player)))
       = [\<lparr>timestamp = Some 0, payload = ''start''\<rparr>,
          \<lparr>timestamp = Some 4000, payload = ''ping''\<rparr>,
          \<lparr>timestamp = Some 10000, payload = ''complete''\<rparr>]" by code_simp
  from h e have "distinct (events (play 1000 None trip_player))" by (simp only:)
  with ticks_deliver_each_position_once [of "[1250, 1500, 6000, 12000]" "play 1000 None trip_player"]
  have "distinct (delivered (snd (ticks [1250, 1500, 6000, 12000] (play 1000 None trip_player))))"
    by blast
  with h v show ?thesis by blast
qed

text \<open>
  C7. A tick that leaves the pointer at the length of the log clears the timer, and the
  interval fires no more: every later run of ticks changes nothing and signals nothing.
  With an empty log the first tick after \<^verbatim>\<open>play\<close> clears the timer, after its \<^verbatim>\<open>onTick\<close>
  call.
\<close>

theorem tick_auto_pause:
  "(length (events p) \<le> pointer (fst (tick wall p)) \<longrightarrow>
      \<not> timer (fst (tick wall p)) \<and> ticks ws (fst (tick wall p)) = (fst (tick wall p), []))
   \<and> (events p = [] \<longrightarrow>
      \<not> timer (fst (fire wall (play wall0 sp p)))
      \<and> snd (fire wall (play wall0 sp p)) = [OnTick (getSimTime wall (play wall0 sp p))])"
proof -
  have a: "\<not> timer (fst (tick wall p))" if "length (events p) \<le> pointer (fst (tick wall p))"
    using that by (simp add: tick_unfold Let_def pause_def split: if_splits)
  have b: "\<not> timer (fst (fire wall (play wall0 sp p)))
      \<and> snd (fire wall (play wall0 sp p)) = [OnTick (getSimTime wall (play wall0 sp p))]"
    if "events p = []"
  proof -
    let ?q = "play wall0 sp p"
    have e: "events ?q = []" using that by (simp add: play_same_instant)
    then have "\<not> timer (fst (fire wall ?q))" using fire_timer [of wall ?q] by simp
    moreover have "snd (fire wall ?q) = [OnTick (getSimTime wall ?q)]"
      using e by (simp add: fire_def play_same_instant tick_unfold Let_def deliver_done)
    ultimately show ?thesis by simp
  qed
  from a b show ?thesis by (simp add: ticks_idle)
qed

theorem tick_auto_pause_witness:
  "length (events trip_player) \<le> pointer (fst (tick 12000 (play 1000 None trip_player)))
   \<and> \<not> timer (fst (tick 12000 (play 1000 None trip_player)))
   \<and> ticks [12250, 12500] (fst (tick 12000 (play 1000 None trip_player)))
        = (fst (tick 12000 (play 1000 None trip_player)), [])
   \<and> events (new_EventPlayer 1000 ([] :: string event list) None 1) = []
   \<and> \<not> timer (fst (fire 1250 (play 1000 None (new_EventPlayer 1000 ([] :: string event list) None 1))))"
proof -
  let ?p = "play 1000 None trip_player"
  let ?e = "new_EventPlayer 1000 ([] :: string event list) None 1"
  have h1: "length (events ?p) \<le> pointer (fst (tick 12000 ?p))" by code_simp
  have h2: "events ?e = []" by code_simp
  have e: "events ?p = events trip_player" by (simp add: play_same_instant)
  from tick_auto_pause [of ?p 12000 "[12250, 12500]" 1000 None] h1
  have "\<not> timer (fst (tick 12000 ?p)) \<and> ticks [12250, 12500] (fst (tick 12000 ?p)) = (fst (tick 12000 ?p), [])"
    by blast
  moreover from tick_auto_pause [of ?e 1250 "[]" 1000 None] h2
  have "\<not> timer (fst (fire 1250 (play 1000 None ?e)))" by blast
  ultimately show ?thesis using h1 h2 e by (simp only: simp_thms)
qed



text \<open>
  C8 (as amended). A record whose timestamp does not parse raises no error and is never
  delivered, but the pointer does not move past it: in every run of ticks the pointer
  stays at or before the record, so that neither it nor any record behind it in the
  player's list is delivered, and the timer is not cleared.
\<close>

theorem unparsed_timestamp_blocks_cursor:
  assumes "pointer p \<le> i" and "i < length (events p)" and "timestamp (events p ! i) = None"
  shows "pointer (fst (ticks ws p)) \<le> i
         \<and> delivered (snd (ticks ws p)) = map ((!) (events p)) [pointer p ..< pointer (fst (ticks ws p))]
         \<and> timer (fst (ticks ws p)) = timer p"
proof -
  have b: "pointer (fst (ticks ws p)) \<le> i" using assms(1,3) by (rule ticks_blocked)
  with assms(2) have "pointer (fst (ticks ws p)) < length (events p)" by simp
  then have "timer (fst (ticks ws p)) = timer p" using ticks_timer [of ws p] by simp
  with b ticks_delivered [of ws p] show ?thesis by simp
qed

theorem unparsed_timestamp_blocks_cursor_witness:
  "pointer (play 1000 None broken_player) \<le> 0
   \<and> 0 < length (events (play 1000 None broken_player))
   \<and> timestamp (events (play 1000 None broken_player) ! 0) = None
   \<and> pointer (fst (ticks [1250, 30000] (play 1000 None broken_player))) \<le> 0
   \<and> timer (fst (ticks [1250, 30000] (play 1000 None broken_player)))"
proof -
  let ?p = "play 1000 None broken_player"
  have h1: "pointer ?p \<le> 0" by code_simp
  have h2: "0 < length (events ?p)" by code_simp
  have h3: "timestamp (events ?p ! 0) = None" by code_simp
  have t: "timer ?p" by (simp add: play_same_instant)
  from unparsed_timestamp_blocks_cursor [OF h1 h2 h3, of "[1250, 30000]"] h1 h2 h3 t
  show ?thesis by blast
qed

text \<open>C8 as stated fails: behind a garbled first record the record due at 5 ms is not
  delivered by any tick, though the clock has reached 29000 ms, and the timer stays on.\<close>

theorem unparsed_timestamp_counterexample:
  "events broken_player =
     [\<lparr>timestamp = None, payload = ''garbled''\<rparr>, \<lparr>timestamp = Some 5, payload = ''good''\<rparr>]
   \<and> getSimTime 30000 (play 1000 None broken_player) = Some 29000
   \<and> delivered (snd (ticks [1250, 1500, 6000, 30000] (play 1000 None broken_player))) = []
   \<and> timer (fst (ticks [1250, 1500, 6000, 30000] (play 1000 None broken_player)))"
  by code_simp

subsection \<open>\<^verbatim>\<open>seek\<close>, \<^verbatim>\<open>stepForward\<close> and the event list\<close>

lemma findIndex_None: "findIndex P xs = None \<longleftrightarrow> (\<forall>x \<in> set xs. \<not> P x)"
  by (induction xs) auto

lemma findIndex_Some:
  "findIndex P xs = Some i \<Longrightarrow> i < length xs \<and> P (xs ! i) \<and> (\<forall>j < i. \<not> P (xs ! j))"
proof (induction xs arbitrary: i)
  case Nil
  then show ?case by simp
next
  case (Cons x xs)
  show ?case
  proof (cases "P x")
    case True
    with Cons.prems show ?thesis by simp
  next
    case False
    with Cons.prems obtain k where k: "findIndex P xs = Some k" and i: "i = Suc k" by auto
    from Cons.IH [OF k] False show ?thesis unfolding i by (auto simp: less_Suc_eq_0_disj)
  qed
qed

lemma seek_fields:
  "baseSim (seek wall t p) = t \<and> baseReal (seek wall t p) = Some wall
   \<and> simNow (seek wall t p) = newDate (num t)
   \<and> events (seek wall t p) = events p \<and> timer (seek wall t p) = timer p
   \<and> speed (seek wall t p) = speed p
   \<and> pointer (seek wall t p) =
       (case findIndex (\<lambda>e. date_ge (timestamp e) (newDate (num t))) (events p) of
          None \<Rightarrow> length (events p) | Some i \<Rightarrow> i)"
  by (simp add: seek_def Let_def split: option.splits)

lemma getSimTime_seek: "getSimTime wall (seek wall t p) = newDate (num t)"
  by (cases t) (simp_all add: getSimTime_def seek_fields num_def newDate_def)

lemma dispatch_player: "player (dispatch out d) = player d"
  by (induction out d rule: dispatch.induct) (simp_all add: onTick_def onEvent_def)

lemma stepForward_None:
  "findIndex (\<lambda>e. date_gt (timestamp e) (getSimTime wall (player d))) (events (player d)) = None \<Longrightarrow>
   stepForward wall d = d\<lparr>player := pause (player d)\<rparr>"
  by (simp add: stepForward_def Let_def getSimTime_pause pause_fields)

lemma stepForward_Some:
  "findIndex (\<lambda>e. date_gt (timestamp e) (getSimTime wall (player d))) (events (player d)) = Some i \<Longrightarrow>
   stepForward wall d =
     d\<lparr>player := seek wall (timestamp (events (player d) ! i)) (pause (player d)),
       simTime := Some (newDate (num (timestamp (events (player d) ! i)))),
       activity := take 300 (events (player d) ! i # activity d)\<rparr>"
  by (simp add: stepForward_def Let_def getSimTime_pause pause_fields getSimTime_seek seek_fields)

lemma stepForward_events: "events (player (stepForward wall d)) = events (player d)"
  by (cases "findIndex (\<lambda>e. date_gt (timestamp e) (getSimTime wall (player d))) (events (player d))")
     (simp_all add: stepForward_None stepForward_Some pause_fields seek_fields)

lemma stepForward_timer: "\<not> timer (player (stepForward wall d))"
  by (cases "findIndex (\<lambda>e. date_gt (timestamp e) (getSimTime wall (player d))) (events (player d))")
     (simp_all add: stepForward_None stepForward_Some seek_fields pause_def)

lemma new_EventPlayer_clock:
  assumes "evs \<noteq> []" and "startTime = None \<or> startTime = Some (timestamp (array_sort evs ! 0))"
  shows "getSimTime wall (new_EventPlayer wall0 evs startTime s)
         = newDate (num (timestamp (events (new_EventPlayer wall0 evs startTime s) ! 0)))"
proof -
  from assms(1) have "set (array_sort evs) \<noteq> {}" by (simp add: set_array_sort)
  then have "array_sort evs \<noteq> []" by auto
  with assms(2) have "baseSim (new_EventPlayer wall0 evs startTime s) = timestamp (array_sort evs ! 0)"
    by (auto simp: new_EventPlayer_def Let_def)
  then show ?thesis by (simp add: getSimTime_def new_EventPlayer_fields)
qed

lemma date_gt_newDate: "\<not> date_gt t (newDate (num t))"
  by (cases t) (auto simp: date_gt_def newDate_def num_def TimeClip_def ToInteger_of_int)

lemma exec_events: "events (player (exec wall a d)) = events (player d)"
proof (cases a)
  case (Play sp)
  then show ?thesis by (simp add: play_same_instant)
next
  case Pause
  then show ?thesis by (simp add: pause_fields)
next
  case (SetSpeed s)
  then show ?thesis by (simp add: setSpeed_def Let_def)
next
  case (Seek t)
  then show ?thesis by (simp add: seek_fields)
next
  case Tick
  then show ?thesis by (simp add: split_beta dispatch_player fire_fields)
next
  case Step
  then show ?thesis by (simp add: stepForward_events)
qed

lemma run_events: "events (player (run ops d)) = events (player d)"
  by (induction ops d rule: run.induct) (simp_all add: exec_events)

text \<open>
  C4. For every target time \<open>t\<close> (a time value a \<^verbatim>\<open>Date\<close> can hold), \<^verbatim>\<open>seek\<close> sets the
  simulated time to exactly \<open>t\<close> (\<open>baseSim\<close>, \<open>simNow\<close> and the time read at that instant),
  sets the wall-clock anchor to the instant of the call, and puts the pointer at the first
  position whose timestamp is at least \<open>t\<close>, or at the length of the log when there is
  none. It calls no callback: the activity feed and the displayed time of the dashboard
  are as before.
\<close>

theorem seek_relocates_cursor:
  assumes "\<bar>t\<bar> \<le> 8640000000000000"
  shows "baseSim (seek wall (Some t) p) = Some t
       \<and> simNow (seek wall (Some t) p) = Some t
       \<and> getSimTime wall (seek wall (Some t) p) = Some t
       \<and> baseReal (seek wall (Some t) p) = Some wall
       \<and> pointer (seek wall (Some t) p) \<le> length (events p)
       \<and> (\<forall>j < pointer (seek wall (Some t) p). \<not> date_ge (timestamp (events p ! j)) (Some t))
       \<and> (pointer (seek wall (Some t) p) < length (events p) \<longrightarrow>
            date_ge (timestamp (events p ! pointer (seek wall (Some t) p))) (Some t))
       \<and> events (seek wall (Some t) p) = events p
       \<and> timer (seek wall (Some t) p) = timer p
       \<and> speed (seek wall (Some t) p) = speed p
       \<and> activity (exec wall (Seek (Some t)) d) = activity d
       \<and> simTime (exec wall (Seek (Some t)) d) = simTime d"
proof -
  let ?P = "\<lambda>e::'a event. date_ge (timestamp e) (Some t)"
  let ?k = "pointer (seek wall (Some t) p)"
  have nd: "newDate (num (Some t)) = Some t"
    using assms by (simp add: newDate_def num_def TimeClip_in_range)
  have k: "?k = (case findIndex ?P (events p) of None \<Rightarrow> length (events p) | Some i \<Rightarrow> i)"
    using seek_fields [of wall "Some t" p] nd by simp
  have ptr: "?k \<le> length (events p) \<and> (\<forall>j < ?k. \<not> ?P (events p ! j))
       \<and> (?k < length (events p) \<longrightarrow> ?P (events p ! ?k))"
  proof (cases "findIndex ?P (events p)")
    case None
    then have "\<forall>x \<in> set (events p). \<not> ?P x" by (simp add: findIndex_None)
    with None k show ?thesis by simp
  next
    case (Some i)
    from findIndex_Some [OF Some] Some k show ?thesis by simp
  qed
  have "getSimTime wall (seek wall (Some t) p) = Some t"
    using nd by (simp only: getSimTime_seek)
  with ptr nd show ?thesis by (simp add: seek_fields)
qed

theorem seek_relocates_cursor_witness:
  "\<bar>4000::int\<bar> \<le> 8640000000000000
   \<and> getSimTime 7000 (seek 7000 (Some 4000) (play 1000 None trip_player)) = Some 4000
   \<and> pointer (seek 7000 (Some 4000) (play 1000 None trip_player)) = 1
   \<and> pointer (seek 7000 (Some 10001) (play 1000 None trip_player)) = 3
   \<and> pointer (seek 7000 (Some (-5)) (play 1000 None trip_player)) = 0"
proof -
  have h: "\<bar>4000::int\<bar> \<le> 8640000000000000" by simp
  have v: "pointer (seek 7000 (Some 4000) (play 1000 None trip_player)) = 1
     \<and> pointer (seek 7000 (Some 10001) (play 1000 None trip_player)) = 3
     \<and> pointer (seek 7000 (Some (-5)) (play 1000 None trip_player)) = 0" by code_simp
  from seek_relocates_cursor [OF h, of 7000 "play 1000 None trip_player"] h v show ?thesis by blast
qed

text \<open>
  C9 (as amended). \<^verbatim>\<open>stepForward\<close> clears the timer and looks for the first event whose
  timestamp is strictly greater than the time the clock reads at the call. When there is
  one, it seeks to that event's timestamp, so that the clock reads it, and puts that one
  event at the head of the activity feed; when there is none, it only pauses. An event
  whose timestamp is not greater than the time read at the call is not the one delivered:
  on a new player, whose clock stands at the timestamp of the first event, the step does
  not deliver the first event.
\<close>

theorem stepForward_next_later_event:
  "\<not> timer (player (stepForward wall d))
   \<and> (findIndex (\<lambda>e. date_gt (timestamp e) (getSimTime wall (player d))) (events (player d)) = None \<longrightarrow>
        (\<forall>e \<in> set (events (player d)). \<not> date_gt (timestamp e) (getSimTime wall (player d)))
        \<and> stepForward wall d = d\<lparr>player := pause (player d)\<rparr>)
   \<and> (findIndex (\<lambda>e. date_gt (timestamp e) (getSimTime wall (player d))) (events (player d)) = Some i \<longrightarrow>
        i < length (events (player d))
        \<and> date_gt (timestamp (events (player d) ! i)) (getSimTime wall (player d))
        \<and> (\<forall>j < i. \<not> date_gt (timestamp (events (player d) ! j)) (getSimTime wall (player d)))
        \<and> player (stepForward wall d) = seek wall (timestamp (events (player d) ! i)) (pause (player d))
        \<and> baseSim (player (stepForward wall d)) = timestamp (events (player d) ! i)
        \<and> getSimTime wall (player (stepForward wall d)) = newDate (num (timestamp (events (player d) ! i)))
        \<and> simTime (stepForward wall d) = Some (newDate (num (timestamp (events (player d) ! i))))
        \<and> activity (stepForward wall d) = take 300 (events (player d) ! i # activity d)
        \<and> (evs \<noteq> [] \<and> (startTime = None \<or> startTime = Some (timestamp (array_sort evs ! 0)))
            \<and> player d = new_EventPlayer wall0 evs startTime s \<longrightarrow> i \<noteq> 0))"
proof -
  let ?P = "\<lambda>e::'a event. date_gt (timestamp e) (getSimTime wall (player d))"
  have a: "\<not> timer (player (stepForward wall d))" by (rule stepForward_timer)
  have b: "(\<forall>e \<in> set (events (player d)). \<not> ?P e) \<and> stepForward wall d = d\<lparr>player := pause (player d)\<rparr>"
    if "findIndex ?P (events (player d)) = None"
    using that by (simp add: stepForward_None findIndex_None)
  have c: "i < length (events (player d)) \<and> ?P (events (player d) ! i)
        \<and> (\<forall>j < i. \<not> ?P (events (player d) ! j))
        \<and> player (stepForward wall d) = seek wall (timestamp (events (player d) ! i)) (pause (player d))
        \<and> baseSim (player (stepForward wall d)) = timestamp (events (player d) ! i)
        \<and> getSimTime wall (player (stepForward wall d)) = newDate (num (timestamp (events (player d) ! i)))
        \<and> simTime (stepForward wall d) = Some (newDate (num (timestamp (events (player d) ! i))))
        \<and> activity (stepForward wall d) = take 300 (events (player d) ! i # activity d)"
    if s: "findIndex ?P (events (player d)) = Some i"
    using findIndex_Some [OF s] by (simp add: stepForward_Some [OF s] seek_fields getSimTime_seek)
  have e: "i \<noteq> 0"
    if s: "findIndex ?P (events (player d)) = Some i"
      and n: "evs \<noteq> []" "startTime = None \<or> startTime = Some (timestamp (array_sort evs ! 0))"
      and p: "player d = new_EventPlayer wall0 evs startTime s"
  proof
    assume "i = 0"
    with findIndex_Some [OF s] have "?P (events (player d) ! 0)" by simp
    then show False
      unfolding p new_EventPlayer_clock [OF n] by (simp add: date_gt_newDate)
  qed
  from a b c e show ?thesis by blast
qed

theorem stepForward_next_later_event_witness:
  "findIndex (\<lambda>e. date_gt (timestamp e) (getSimTime 1000 (player trip_dashboard)))
      (events (player trip_dashboard)) = Some 1
   \<and> trip_log \<noteq> []
   \<and> player trip_dashboard = new_EventPlayer 1000 trip_log None 1
   \<and> (1::nat) \<noteq> 0
   \<and> getSimTime 1000 (player (stepForward 1000 trip_dashboard)) = Some 4000
   \<and> activity (stepForward 1000 trip_dashboard) = [\<lparr>timestamp = Some 4000, payload = ''ping''\<rparr>]
   \<and> findIndex (\<lambda>e. date_gt (timestamp e) (getSimTime 1000 (player (run [(1000, Step), (1000, Step)] trip_dashboard))))
      (events (player (run [(1000, Step), (1000, Step)] trip_dashboard))) = None
   \<and> stepForward 1000 (run [(1000, Step), (1000, Step)] trip_dashboard)
       = (run [(1000, Step), (1000, Step)] trip_dashboard)
           \<lparr>player := pause (player (run [(1000, Step), (1000, Step)] trip_dashboard))\<rparr>"
proof -
  let ?d = "run [(1000, Step), (1000, Step)] trip_dashboard"
  have h1: "findIndex (\<lambda>e. date_gt (timestamp e) (getSimTime 1000 (player trip_dashboard)))
      (events (player trip_dashboard)) = Some 1" by code_simp
  have h2: "findIndex (\<lambda>e. date_gt (timestamp e) (getSimTime 1000 (player ?d))) (events (player ?d)) = None"
    by code_simp
  have v1: "newDate (num (timestamp (events (player trip_dashboard) ! 1))) = Some 4000" by code_simp
  have v2: "take 300 (events (player trip_dashboard) ! 1 # activity trip_dashboard)
      = [\<lparr>timestamp = Some 4000, payload = ''ping''\<rparr>]" by code_simp
  have h3: "trip_log \<noteq> []" by (simp add: trip_log_def)
  have h4: "player trip_dashboard = new_EventPlayer 1000 trip_log None 1"
    by (simp add: trip_dashboard_def trip_player_def)
  from stepForward_next_later_event [of 1000 trip_dashboard 1 trip_log None 1000 1] h1 h3 h4
  have n: "(1::nat) \<noteq> 0" by blast
  from stepForward_next_later_event [of 1000 trip_dashboard 1] h1
  have "getSimTime 1000 (player (stepForward 1000 trip_dashboard))
        = newDate (num (timestamp (events (player trip_dashboard) ! 1)))
      \<and> activity (stepForward 1000 trip_dashboard)
        = take 300 (events (player trip_dashboard) ! 1 # activity trip_dashboard)"
    by blast
  then have "getSimTime 1000 (player (stepForward 1000 trip_dashboard)) = Some 4000
      \<and> activity (stepForward 1000 trip_dashboard) = [\<lparr>timestamp = Some 4000, payload = ''ping''\<rparr>]"
    by (simp only: v1 v2)
  moreover from stepForward_next_later_event [of 1000 ?d 0] h2
  have "stepForward 1000 ?d = ?d\<lparr>player := pause (player ?d)\<rparr>" by blast
  ultimately show ?thesis using h1 h2 h3 h4 n by blast
qed

text \<open>C9 as stated fails: from the new player on the scenario log the clock reads 0, the
  first step delivers "ping" and the second "complete"; a third delivers nothing, and
  "start" is never delivered.\<close>

theorem stepForward_skips_first_event_counterexample:
  "events (player trip_dashboard) =
     [\<lparr>timestamp = Some 0, payload = ''start''\<rparr>,
      \<lparr>timestamp = Some 4000, payload = ''ping''\<rparr>,
      \<lparr>timestamp = Some 10000, payload = ''complete''\<rparr>]
   \<and> getSimTime 1000 (player trip_dashboard) = Some 0
   \<and> activity (run [(1000, Step)] trip_dashboard) = [\<lparr>timestamp = Some 4000, payload = ''ping''\<rparr>]
   \<and> activity (run [(1000, Step), (1000, Step)] trip_dashboard)
       = [\<lparr>timestamp = Some 10000, payload = ''complete''\<rparr>, \<lparr>timestamp = Some 4000, payload = ''ping''\<rparr>]
   \<and> activity (run [(1000, Step), (1000, Step), (1000, Step)] trip_dashboard)
       = [\<lparr>timestamp = Some 10000, payload = ''complete''\<rparr>, \<lparr>timestamp = Some 4000, payload = ''ping''\<rparr>]"
  by code_simp

text \<open>
  C10. The constructor leaves every array of the store it was given as it was, the
  caller's list among them: it sorts a new array, whose content is the player's event
  list. After that, no run of operations (play, pause, setSpeed, seek, tick, step)
  changes the player's event list or a record in it.
\<close>

theorem events_never_mutated:
  "(a < length st \<longrightarrow>
      snd (constructor_events st a) = length st
      \<and> length (fst (constructor_events st a)) = Suc (length st)
      \<and> (\<forall>b < length st. fst (constructor_events st a) ! b = st ! b)
      \<and> fst (constructor_events st a) ! snd (constructor_events st a)
          = events (new_EventPlayer wall (st ! a) startTime s))
   \<and> events (player (run ops d)) = events (player d)"
proof -
  have "fst (constructor_events st a) = (st @ [st ! a])[length st := array_sort (st ! a)]"
    and c: "snd (constructor_events st a) = length st"
    by (simp_all add: constructor_events_def array_slice_def sort_in_place_def)
  then have f: "fst (constructor_events st a) = st @ [array_sort (st ! a)]" by simp
  have "\<forall>b < length st. fst (constructor_events st a) ! b = st ! b"
    unfolding f by (simp add: nth_append)
  moreover have "fst (constructor_events st a) ! snd (constructor_events st a) = array_sort (st ! a)"
    unfolding f c by simp
  moreover have "length (fst (constructor_events st a)) = Suc (length st)"
    unfolding f by simp
  ultimately show ?thesis using c by (simp add: run_events new_EventPlayer_fields)
qed

theorem events_never_mutated_witness:
  "(0::nat) < length [trip_log]
   \<and> snd (constructor_events [trip_log] 0) = 1
   \<and> fst (constructor_events [trip_log] 0) ! 0 = trip_log
   \<and> fst (constructor_events [trip_log] 0) ! 1 = events trip_player
   \<and> events (player (run [(1000, Play None), (1250, Tick), (1300, SetSpeed 2), (1400, Step),
                            (1500, Seek (Some 0)), (1600, Pause)] trip_dashboard))
       = events trip_player"
proof -
  let ?ops = "[(1000, Play None), (1250, Tick), (1300, SetSpeed 2), (1400, Step),
               (1500, Seek (Some 0)), (1600, Pause)]"
  have h: "(0::nat) < length [trip_log]" by simp
  have e: "events (player trip_dashboard) = events trip_player" by (simp add: trip_dashboard_def)
  note t = events_never_mutated [of 0 "[trip_log]" 1000 None 1 ?ops trip_dashboard]
  note c = t [THEN conjunct1, THEN mp, OF h]
  have a1: "snd (constructor_events [trip_log] 0) = length [trip_log]"
    by (rule c [THEN conjunct1])
  have "\<forall>b < length [trip_log]. fst (constructor_events [trip_log] 0) ! b = [trip_log] ! b"
    by (rule c [THEN conjunct2, THEN conjunct2, THEN conjunct1])
  then have a2: "fst (constructor_events [trip_log] 0) ! 0 = [trip_log] ! 0" using h by simp
  have a3: "fst (constructor_events [trip_log] 0) ! snd (constructor_events [trip_log] 0)
      = events (new_EventPlayer 1000 ([trip_log] ! 0) None 1)"
    by (rule c [THEN conjunct2, THEN conjunct2, THEN conjunct2])
  have a4: "events (player (run ?ops trip_dashboard)) = events (player trip_dashboard)"
    by (rule t [THEN conjunct2])
  from a1 have b1: "snd (constructor_events [trip_log] 0) = 1" by simp
  from a2 have b2: "fst (constructor_events [trip_log] 0) ! 0 = trip_log" by simp
  from a3 have b3: "fst (constructor_events [trip_log] 0) ! 1 = events trip_player"
    unfolding b1 trip_player_def by simp
  from a4 have b4: "events (player (run ?ops trip_dashboard)) = events trip_player"
    unfolding e .
  from h b1 b2 b3 b4 show ?thesis by (simp only: simp_thms)
qed

end
